theory Spec2Isabelle
  imports Main "HOL-Library.Word"
begin

section \<open>JavaScript strings and the built-ins the truncation code calls\<close>

text \<open>
  A JavaScript string is a sequence of UTF-16 code units and \<open>.length\<close> counts code
  units, so a string is a list of 16-bit words. The source holds non-ASCII literals
  (Chinese keywords in the section patterns, the elision marker of the code extractor);
  they are written by code unit.
\<close>

type_synonym jschar = "16 word"
type_synonym jsstring = "jschar list"

definition ascii :: "string \<Rightarrow> jsstring" where
  "ascii s = map (\<lambda>c. of_char c) s"

definition NL :: jschar where
  "NL = 10"

definition len :: "'a list \<Rightarrow> int" where
  "len s = int (length s)"

text \<open>
  \<open>s.slice(b, e)\<close> for strings and arrays, on integer arguments: a negative bound
  counts from the end, both bounds are clamped to \<open>[0, length]\<close>, and the result is
  empty when the clamped start is not before the clamped end. \<open>slice_from\<close> is the
  one-argument form (the end is the length).
\<close>

definition slice_bound :: "int \<Rightarrow> int \<Rightarrow> int" where
  "slice_bound n b = (if b < 0 then max (n + b) 0 else min b n)"

definition slice :: "'a list \<Rightarrow> int \<Rightarrow> int \<Rightarrow> 'a list" where
  "slice s b e =
     (let from = slice_bound (len s) b; to = slice_bound (len s) e
      in take (nat (to - from)) (drop (nat from) s))"

definition slice_from :: "'a list \<Rightarrow> int \<Rightarrow> 'a list" where
  "slice_from s b = drop (nat (slice_bound (len s) b)) s"

text \<open>
  \<open>remaining / 2\<close> is a Number division; \<open>slice\<close> converts its argument with
  ToIntegerOrInfinity, which truncates towards zero (and turns \<open>-0\<close> into \<open>0\<close>).
  \<open>-remaining / 2\<close> parses as \<open>(-remaining) / 2\<close>.
\<close>

definition trunc_half :: "int \<Rightarrow> int" where
  "trunc_half r = (if 0 \<le> r then r div 2 else - ((- r) div 2))"

text \<open>\<open>xs.join(sep)\<close>: the empty string for an empty array.\<close>

fun join :: "jsstring \<Rightarrow> jsstring list \<Rightarrow> jsstring" where
  "join sep [] = []"
| "join sep [x] = x"
| "join sep (x # y # ys) = x @ sep @ join sep (y # ys)"

text \<open>\<open>s.split("\n")\<close>: never empty; \<open>"".split("\n")\<close> is \<open>[""]\<close>.\<close>

fun split_nl :: "jsstring \<Rightarrow> jsstring list" where
  "split_nl [] = [[]]"
| "split_nl (c # cs) =
     (if c = NL then [] # split_nl cs
      else (case split_nl cs of [] \<Rightarrow> [[c]] | l # ls \<Rightarrow> (c # l) # ls))"

text \<open>\<open>s.includes(t)\<close>: \<open>t\<close> occurs in \<open>s\<close> as a contiguous substring.\<close>

fun starts_with :: "jsstring \<Rightarrow> jsstring \<Rightarrow> bool" where
  "starts_with s [] = True"
| "starts_with [] (d # t) = False"
| "starts_with (c # s) (d # t) = (c = d \<and> starts_with s t)"

fun str_includes :: "jsstring \<Rightarrow> jsstring \<Rightarrow> bool" where
  "str_includes [] t = (t = [])"
| "str_includes (c # s) t = (starts_with (c # s) t \<or> str_includes s t)"

text \<open>
  White space as \<open>\s\<close> and \<open>trim()\<close> see it: the WhiteSpace and LineTerminator
  code points of ECMAScript.
\<close>

definition is_space :: "jschar \<Rightarrow> bool" where
  "is_space c \<longleftrightarrow>
     c \<in> set [0x09, 0x0A, 0x0B, 0x0C, 0x0D, 0x20, 0xA0, 0x1680, 0x2028, 0x2029,
              0x202F, 0x205F, 0x3000, 0xFEFF] \<or> (0x2000 \<le> c \<and> c \<le> 0x200A)"

definition is_line_terminator :: "jschar \<Rightarrow> bool" where
  "is_line_terminator c \<longleftrightarrow> c \<in> set [0x0A, 0x0D, 0x2028, 0x2029]"

definition trim :: "jsstring \<Rightarrow> jsstring" where
  "trim s = rev (dropWhile is_space (rev (dropWhile is_space s)))"

section \<open>Regular expressions\<close>

text \<open>
  The patterns of the source are kept as data and run by a backtracking matcher in the
  order ECMAScript prescribes: alternatives left to right, a greedy quantifier longest
  first, a lazy one shortest first, a lookahead without consuming. Every quantifier of
  the source ranges over a single character or class, which is what \<open>Rep\<close> holds
  (greedy flag, minimum, optional maximum).
\<close>

datatype cclass =
    Chr jschar            \<comment> \<open>a literal character\<close>
  | OneOf "jschar list"   \<comment> \<open>\<open>[...]\<close>\<close>
  | NoneOf "jschar list"  \<comment> \<open>\<open>[^...]\<close>\<close>
  | Space                 \<comment> \<open>\<open>\s\<close>\<close>
  | Dot                   \<comment> \<open>\<open>.\<close> without the s flag\<close>
  | AnyChar               \<comment> \<open>\<open>[\s\S]\<close>\<close>

datatype rx =
    Atom cclass
  | Seq rx rx
  | Alt rx rx
  | Rep bool nat "nat option" cclass
  | Ahead rx              \<comment> \<open>\<open>(?=...)\<close>\<close>
  | Bol                   \<comment> \<open>\<open>^\<close> without the m flag\<close>
  | Eol                   \<comment> \<open>\<open>$\<close> without the m flag\<close>

text \<open>
  Under the \<open>i\<close> flag characters are compared after Canonicalize, which upper-cases a
  code unit. The literals of the patterns are ASCII letters, ASCII punctuation and CJK
  ideographs: an ASCII capital is the canonical form of itself and of its small letter
  only (a code unit from 128 on is never mapped below 128), and nothing else maps to
  an ideograph or to punctuation, so folding the ASCII small letters decides every
  comparison the patterns make.
\<close>

definition canonicalize :: "bool \<Rightarrow> jschar \<Rightarrow> jschar" where
  "canonicalize ic c = (if ic \<and> 0x61 \<le> c \<and> c \<le> 0x7A then c - 0x20 else c)"

fun class_ok :: "bool \<Rightarrow> cclass \<Rightarrow> jschar \<Rightarrow> bool" where
  "class_ok ic (Chr d) c = (canonicalize ic c = canonicalize ic d)"
| "class_ok ic (OneOf ds) c = (canonicalize ic c \<in> canonicalize ic ` set ds)"
| "class_ok ic (NoneOf ds) c = (canonicalize ic c \<notin> canonicalize ic ` set ds)"
| "class_ok ic Space c = is_space c"
| "class_ok ic Dot c = (\<not> is_line_terminator c)"
| "class_ok ic AnyChar c = True"

fun dec :: "nat option \<Rightarrow> nat option" where
  "dec None = None"
| "dec (Some m) = Some (m - 1)"

text \<open>
  A matcher takes the rest of the input and a continuation (the rest of the pattern)
  and returns the input left after the whole match, or \<open>None\<close> when every choice
  fails.
\<close>

fun rx_rep :: "bool \<Rightarrow> (jschar \<Rightarrow> bool) \<Rightarrow> nat \<Rightarrow> nat option \<Rightarrow> jsstring
    \<Rightarrow> (jsstring \<Rightarrow> jsstring option) \<Rightarrow> jsstring option" where
  "rx_rep g p mn mx [] k = (if mn = 0 then k [] else None)"
| "rx_rep g p mn mx (c # cs) k =
     (if p c \<and> mx \<noteq> Some 0 then
        (if mn \<noteq> 0 then rx_rep g p (mn - 1) (dec mx) cs k
         else if g then
           (case rx_rep g p 0 (dec mx) cs k of
              Some r \<Rightarrow> Some r
            | None \<Rightarrow> k (c # cs))
         else
           (case k (c # cs) of
              Some r \<Rightarrow> Some r
            | None \<Rightarrow> rx_rep g p 0 (dec mx) cs k))
      else if mn = 0 then k (c # cs) else None)"

fun rx_m :: "bool \<Rightarrow> nat \<Rightarrow> rx \<Rightarrow> jsstring \<Rightarrow> (jsstring \<Rightarrow> jsstring option)
    \<Rightarrow> jsstring option" where
  "rx_m ic n (Atom a) s k =
     (case s of [] \<Rightarrow> None | c # cs \<Rightarrow> if class_ok ic a c then k cs else None)"
| "rx_m ic n (Seq a b) s k = rx_m ic n a s (\<lambda>s'. rx_m ic n b s' k)"
| "rx_m ic n (Alt a b) s k =
     (case rx_m ic n a s k of Some r \<Rightarrow> Some r | None \<Rightarrow> rx_m ic n b s k)"
| "rx_m ic n (Rep g mn mx a) s k = rx_rep g (class_ok ic a) mn mx s k"
| "rx_m ic n (Ahead a) s k =
     (case rx_m ic n a s Some of None \<Rightarrow> None | Some r \<Rightarrow> k s)"
| "rx_m ic n Bol s k = (if length s = n then k s else None)"
| "rx_m ic n Eol s k = (if s = [] then k s else None)"

text \<open>
  \<open>rx_exec ic r n s\<close>: match \<open>r\<close> at the position where \<open>s\<close> is what is left of an
  input of \<open>n\<close> code units; the result is the input after the match.
\<close>

definition rx_exec :: "bool \<Rightarrow> rx \<Rightarrow> nat \<Rightarrow> jsstring \<Rightarrow> jsstring option" where
  "rx_exec ic r n s = rx_m ic n r s Some"

text \<open>\<open>r.test(s)\<close> for a pattern without the g flag: a match at some position.\<close>

fun rx_search :: "bool \<Rightarrow> rx \<Rightarrow> nat \<Rightarrow> jsstring \<Rightarrow> bool" where
  "rx_search ic r n [] = (rx_exec ic r n [] \<noteq> None)"
| "rx_search ic r n (c # cs) = (rx_exec ic r n (c # cs) \<noteq> None \<or> rx_search ic r n cs)"

definition rx_test :: "bool \<Rightarrow> rx \<Rightarrow> jsstring \<Rightarrow> bool" where
  "rx_test ic r s = rx_search ic r (length s) s"

text \<open>
  \<open>s.match(r) || []\<close> for a pattern with the g flag: the matched substrings from left
  to right, each search starting where the previous match ended (one further after an
  empty match). \<open>skip\<close> counts the code units still covered by the previous match.
\<close>

fun rx_match_from :: "bool \<Rightarrow> rx \<Rightarrow> nat \<Rightarrow> nat \<Rightarrow> jsstring \<Rightarrow> jsstring list" where
  "rx_match_from ic r n skip [] =
     (if skip = 0 \<and> rx_exec ic r n [] \<noteq> None then [[]] else [])"
| "rx_match_from ic r n skip (c # cs) =
     (if skip \<noteq> 0 then rx_match_from ic r n (skip - 1) cs
      else (case rx_exec ic r n (c # cs) of
              None \<Rightarrow> rx_match_from ic r n 0 cs
            | Some rest \<Rightarrow>
                (let m = Suc (length cs) - length rest
                 in take m (c # cs) # rx_match_from ic r n (m - 1) cs)))"

definition match_all :: "bool \<Rightarrow> rx \<Rightarrow> jsstring \<Rightarrow> jsstring list" where
  "match_all ic r s = rx_match_from ic r (length s) 0 s"

text \<open>Pattern notation: a literal string, a sequence, a choice.\<close>

definition lit :: "string \<Rightarrow> rx list" where
  "lit s = map (\<lambda>c. Atom (Chr (of_char c))) s"

definition units :: "jschar list \<Rightarrow> rx list" where
  "units cs = map (\<lambda>c. Atom (Chr c)) cs"

fun seqs :: "rx list \<Rightarrow> rx" where
  "seqs [] = Rep True 0 (Some 0) AnyChar"
| "seqs [r] = r"
| "seqs (r # rs) = Seq r (seqs rs)"

fun alts :: "rx list \<Rightarrow> rx" where
  "alts [] = Atom (OneOf [])"
| "alts [r] = r"
| "alts (r # rs) = Alt r (alts rs)"

section \<open>smartTruncateReadme\<close>

text \<open>
  The four patterns of \<open>prioritySections\<close>, in the order of the source, each with its
  \<open>i\<close> flag. The three heading patterns differ in their keyword group only:
  \<open>#{1,3}\s*(...)[^\n]*\n[\s\S]*?(?=\n#{1,3}\s|\n*$)\<close>; the fourth is a fenced code
  block (three grave accents, code unit 0x60, on each side of \<open>[\s\S]*?\<close>).
\<close>

definition HASH :: jschar where
  "HASH = 0x23"

definition section_end :: rx where
  "section_end =
     Ahead (Alt (seqs [Atom (Chr NL), Rep True 1 (Some 3) (Chr HASH), Atom Space])
                (seqs [Rep True 0 None (Chr NL), Eol]))"

definition section_rx :: "rx \<Rightarrow> rx" where
  "section_rx keywords =
     seqs [Rep True 1 (Some 3) (Chr HASH), Rep True 0 None Space, keywords,
           Rep True 0 None (NoneOf [NL]), Atom (Chr NL), Rep False 0 None AnyChar,
           section_end]"

definition usage_keywords :: rx where
  "usage_keywords =
     alts [seqs (lit ''usage''), seqs (units [0x4F7F, 0x7528]), seqs (units [0x7528, 0x6CD5]),
           seqs (lit ''cli''), seqs (lit ''command''), seqs (units [0x547D, 0x4EE4])]"

definition install_keywords :: rx where
  "install_keywords =
     alts [seqs (lit ''install''), seqs (units [0x5B89, 0x88C5]),
           seqs (lit ''quick'' @ [Rep True 0 None Space] @ lit ''start''),
           seqs (units [0x5FEB, 0x901F, 0x5F00, 0x59CB])]"

definition example_keywords :: rx where
  "example_keywords =
     alts [seqs (lit ''example''), seqs (units [0x793A, 0x4F8B]), seqs (lit ''demo'')]"

definition fence_rx :: rx where
  "fence_rx =
     seqs (units [0x60, 0x60, 0x60] @ [Rep False 0 None AnyChar] @ units [0x60, 0x60, 0x60])"

definition prioritySections :: "(bool \<times> rx) list" where
  "prioritySections =
     [(True, section_rx usage_keywords),
      (True, section_rx install_keywords),
      (True, section_rx example_keywords),
      (False, fence_rx)]"

text \<open>The separator of the final \<open>join\<close>: two newlines, three dots, two newlines.\<close>

definition readme_sep :: jsstring where
  "readme_sep = [NL, NL, 0x2E, 0x2E, 0x2E, NL, NL]"

text \<open>
  The body of the inner loop after its \<open>break\<close> test, on the pair
  \<open>(extracted, remainingBudget)\<close>: a match that occurs in the introduction is passed
  over; otherwise it is cut to the remaining budget and pushed when more than 100
  code units are left of it.
\<close>

definition consider_match ::
    "jsstring \<Rightarrow> jsstring \<Rightarrow> jsstring list \<times> int \<Rightarrow> jsstring list \<times> int" where
  "consider_match intro m st =
     (case st of (extracted, remainingBudget) \<Rightarrow>
        if str_includes intro m then st
        else (let truncated = slice m 0 remainingBudget
              in if len truncated > 100
                 then (extracted @ [truncated], remainingBudget - len truncated)
                 else st))"

fun collect_matches ::
    "jsstring \<Rightarrow> jsstring list \<Rightarrow> jsstring list \<times> int \<Rightarrow> jsstring list \<times> int" where
  "collect_matches intro [] st = st"
| "collect_matches intro (m # ms) st =
     (if snd st \<le> 0 then st
      else collect_matches intro ms (consider_match intro m st))"

fun collect_sections ::
    "jsstring \<Rightarrow> jsstring \<Rightarrow> (bool \<times> rx) list \<Rightarrow> jsstring list \<times> int
     \<Rightarrow> jsstring list \<times> int" where
  "collect_sections content intro [] st = st"
| "collect_sections content intro (regex # rest) st =
     (if snd st \<le> 0 then st
      else collect_sections content intro rest
             (collect_matches intro (match_all (fst regex) (snd regex) content) st))"

text \<open>
  \<open>!content\<close> on a string is the test for the empty string. \<open>extracted\<close> starts as
  the introduction alone, which is charged to the budget first.
\<close>

definition smartTruncateReadme :: "jsstring \<Rightarrow> int \<Rightarrow> jsstring" where
  "smartTruncateReadme content maxLen =
     (if content = [] \<or> len content \<le> maxLen then content
      else (let intro = slice content 0 500
            in join readme_sep
                 (fst (collect_sections content intro prioritySections
                         ([intro], maxLen - len intro)))))"

section \<open>smartTruncatePython\<close>

text \<open>The import pattern \<open>^(import |from .+ import )\<close>.\<close>

definition import_rx :: rx where
  "import_rx =
     seqs [Bol, Alt (seqs (lit ''import ''))
                    (seqs (lit ''from '' @ [Rep True 1 None Dot] @ lit '' import ''))]"

definition is_import :: "jsstring \<Rightarrow> bool" where
  "is_import line = rx_test False import_rx line"

text \<open>
  The first loop, from line index \<open>i\<close> on, with the pair
  \<open>(importLines, importEnd)\<close>. The last branch is the implicit one of the source:
  a line that is no import, met while \<open>importLines\<close> is still empty, is passed over.
\<close>

fun scan_imports ::
    "jsstring list \<Rightarrow> int \<Rightarrow> jsstring list \<times> int \<Rightarrow> jsstring list \<times> int" where
  "scan_imports [] i st = st"
| "scan_imports (line # rest) i st =
     (if is_import line then scan_imports rest (i + 1) (fst st @ [line], i)
      else if fst st \<noteq> [] \<and> trim line = [] then scan_imports rest (i + 1) st
      else if fst st \<noteq> [] then st
      else scan_imports rest (i + 1) st)"

text \<open>
  The five entry patterns, all without flags:
  \<open>if\s+__name__\s*==\s*["']__main__["']\<close>, \<open>def\s+(main|run|cli|app|start)\s*\(\<close>,
  \<open>\.add_command\(\<close>, \<open>@click\.(command|group)\<close>, \<open>argparse\.ArgumentParser\<close>.
\<close>

definition quote_class :: rx where
  "quote_class = Atom (OneOf [0x22, 0x27])"

definition entryPatterns :: "rx list" where
  "entryPatterns =
     [seqs (lit ''if'' @ [Rep True 1 None Space] @ lit ''__name__'' @ [Rep True 0 None Space]
            @ lit ''=='' @ [Rep True 0 None Space, quote_class] @ lit ''__main__''
            @ [quote_class]),
      seqs (lit ''def'' @ [Rep True 1 None Space,
              alts [seqs (lit ''main''), seqs (lit ''run''), seqs (lit ''cli''),
                    seqs (lit ''app''), seqs (lit ''start'')],
              Rep True 0 None Space] @ lit ''(''),
      seqs (lit ''.add_command(''),
      seqs (lit ''@click.'' @ [alts [seqs (lit ''command''), seqs (lit ''group'')]]),
      seqs (lit ''argparse.ArgumentParser'')]"

definition is_entry :: "jsstring \<Rightarrow> bool" where
  "is_entry line = list_ex (\<lambda>pattern. rx_test False pattern line) entryPatterns"

text \<open>
  The second loop runs \<open>i\<close> from the last index down to 0 and stops at the first line
  that matches some pattern; it is given the lines up to index \<open>i\<close> in reverse.
  \<open>-1\<close> is the initial \<open>entryStart\<close>.
\<close>

fun scan_entry :: "jsstring list \<Rightarrow> int \<Rightarrow> int" where
  "scan_entry [] i = - 1"
| "scan_entry (line # earlier) i = (if is_entry line then i else scan_entry earlier (i - 1))"

definition find_entry :: "jsstring list \<Rightarrow> int" where
  "find_entry lines = scan_entry (rev lines) (len lines - 1)"

text \<open>
  The elision marker: a newline, \<open># ... (\<close>, six ideographs, \<open>) ...\<close>, a newline;
  20 code units.
\<close>

definition marker :: jsstring where
  "marker = [NL] @ ascii ''# ... ('' @ [0x4E2D, 0x95F4, 0x4EE3, 0x7801, 0x7701, 0x7565]
            @ ascii '') ...'' @ [NL]"

text \<open>
  What the entry branch pushes onto \<open>result\<close>, given \<open>currentLen\<close>: the context
  window from \<open>contextStart\<close> to the end, whole when it fits and otherwise its tail.
\<close>

definition contextStart :: "int \<Rightarrow> int \<Rightarrow> int" where
  "contextStart entryStart importEnd = max (entryStart - 20) (importEnd + 1)"

definition entry_part :: "jsstring list \<Rightarrow> int \<Rightarrow> int \<Rightarrow> int \<Rightarrow> int \<Rightarrow> jsstring list" where
  "entry_part lines entryStart importEnd currentLen maxLen =
     (let entrySection = join [NL] (slice_from lines (contextStart entryStart importEnd))
      in if currentLen + len entrySection \<le> maxLen then
           (if contextStart entryStart importEnd > importEnd + 1 then [marker] else [])
           @ [entrySection]
         else (let remaining = maxLen - currentLen - 50
               in if remaining > 0 then [marker, slice_from entrySection (- remaining)]
                  else []))"

text \<open>What the branch without an entry point pushes: the rest whole, or its head and tail.\<close>

definition head_tail_part :: "jsstring list \<Rightarrow> int \<Rightarrow> int \<Rightarrow> int \<Rightarrow> jsstring list" where
  "head_tail_part lines importEnd currentLen maxLen =
     (let remaining = maxLen - currentLen;
          middleContent = join [NL] (slice_from lines (importEnd + 1))
      in if len middleContent \<le> remaining then [middleContent]
         else [slice middleContent 0 (trunc_half remaining), marker,
               slice_from middleContent (trunc_half (- remaining))])"

definition smartTruncatePython :: "jsstring \<Rightarrow> int \<Rightarrow> jsstring" where
  "smartTruncatePython content maxLen =
     (if content = [] \<or> len content \<le> maxLen then content
      else (let lines = split_nl content;
                imports = scan_imports lines 0 ([], 0);
                importEnd = snd imports;
                entryStart = find_entry lines;
                halfBudget = maxLen div 2;
                importSection = join [NL] (fst imports);
                included = (len importSection < halfBudget);
                result = (if included then [importSection] else []);
                currentLen = (if included then len importSection else 0)
            in join [NL]
                 (result @
                  (if entryStart \<noteq> - 1
                   then entry_part lines entryStart importEnd currentLen maxLen
                   else head_tail_part lines importEnd currentLen maxLen))))"

section \<open>truncateFilesByBudget\<close>

text \<open>
  \<open>fileContents\<close> is an object from file name to content; \<open>Object.entries\<close> lists it
  as pairs with distinct names, so it is an association list, and so is \<open>result\<close>, in
  insertion order. The loop runs over the sorted list with \<open>remaining\<close>; an absent
  \<open>truncateFn\<close> is \<open>None\<close>.
\<close>

type_synonym files = "(jsstring \<times> jsstring) list"

fun allocate ::
    "(jsstring \<Rightarrow> int \<Rightarrow> jsstring) option \<Rightarrow> int \<Rightarrow> files \<Rightarrow> int \<Rightarrow> files" where
  "allocate truncateFn perFileBudget [] remaining = []"
| "allocate truncateFn perFileBudget ((fileName, content) # rest) remaining =
     (if remaining \<le> 0 then []
      else (let budget = min remaining (max perFileBudget 500);
                excerpt = (case truncateFn of
                             Some f \<Rightarrow> f content budget
                           | None \<Rightarrow> slice content 0 budget)
            in (fileName, excerpt) # allocate truncateFn perFileBudget rest (remaining - len excerpt)))"

text \<open>
  \<open>Array.prototype.sort\<close> is stable, as \<open>sort_key\<close> is; \<open>Math.floor\<close> of the quotient
  of two integers is \<open>div\<close>.
\<close>

definition truncateFilesByBudget ::
    "files \<Rightarrow> int \<Rightarrow> (jsstring \<Rightarrow> int \<Rightarrow> jsstring) option \<Rightarrow> files" where
  "truncateFilesByBudget fileContents totalBudget truncateFn =
     (if fileContents = [] then []
      else (let files = sort_key (\<lambda>entry. length (snd entry)) fileContents;
                perFileBudget = totalBudget div len files
            in allocate truncateFn perFileBudget files totalBudget))"

text \<open>The sum of the content lengths of a list of files or excerpts.\<close>

definition total_len :: "files \<Rightarrow> int" where
  "total_len fs = sum_list (map (\<lambda>entry. len (snd entry)) fs)"

section \<open>The functions on JavaScript values\<close>





















section \<open>Reference notions and sample documents\<close>

text \<open>
  The import preamble in the words of the specification: the run of import-style
  lines from the top of the file, blank lines tolerated, up to the first line that
  is neither.
\<close>

definition spec_preamble :: "jsstring list \<Rightarrow> jsstring list" where
  "spec_preamble lines =
     filter is_import (takeWhile (\<lambda>l. is_import l \<or> trim l = []) lines)"

text \<open>
  In a run of import-style and blank lines, the number of lines up to and including
  the last import-style one.
\<close>

definition run_end :: "jsstring list \<Rightarrow> nat" where
  "run_end ls = length (dropWhile (\<lambda>l. \<not> is_import l)
       (rev (takeWhile (\<lambda>l. is_import l \<or> trim l = []) ls)))"

text \<open>Sample documents.\<close>

definition late_import_doc :: jsstring where
  "late_import_doc = join [NL] [ascii ''x = 1'', ascii ''import os'', ascii ''y = 2'']"

definition plain_doc :: jsstring where
  "plain_doc = join [NL] [ascii ''FIRST'', ascii ''second line'', ascii ''third line'']"

definition two_entry_doc :: jsstring where
  "two_entry_doc =
     join [NL] ([ascii ''import os'', ascii ''def main():''] @ replicate 23 (ascii ''x'')
                @ [ascii ''def run():'', ascii ''y''])"

text \<open>
  A source file of 50 lines: five imports, four long assignments, twenty short ones,
  \<open>def run():\<close> on line 30, its body, the \<open>__main__\<close> guard on line 48 and two
  comment lines. It is 932 code units long.
\<close>

definition scenario_lines :: "jsstring list" where
  "scenario_lines =
     [ascii ''import os'',
      ascii ''import sys'',
      ascii ''import json'',
      ascii ''import re'',
      ascii ''import time'',
      ascii ''total_06 = 1 + 1 + 1 + 1 + 1 + 1 + 1 + 1 + 1 + 1 + 1 + 1 + 1 + 1 + 1 + 1 + 1 + 1 + 1 + 1 + 1 + 1 + 1'',
      ascii ''total_07 = 1 + 1 + 1 + 1 + 1 + 1 + 1 + 1 + 1 + 1 + 1 + 1 + 1 + 1 + 1 + 1 + 1 + 1 + 1 + 1 + 1 + 1 + 1'',
      ascii ''total_08 = 1 + 1 + 1 + 1 + 1 + 1 + 1 + 1 + 1 + 1 + 1 + 1 + 1 + 1 + 1 + 1 + 1 + 1 + 1 + 1 + 1 + 1 + 1'',
      ascii ''total_09 = 1 + 1 + 1 + 1 + 1 + 1 + 1 + 1 + 1 + 1 + 1 + 1 + 1 + 1 + 1 + 1 + 1 + 1 + 1 + 1 + 1 + 1 + 1'',
      ascii ''a10 = 10'',
      ascii ''a11 = 11'',
      ascii ''a12 = 12'',
      ascii ''a13 = 13'',
      ascii ''a14 = 14'',
      ascii ''a15 = 15'',
      ascii ''a16 = 16'',
      ascii ''a17 = 17'',
      ascii ''a18 = 18'',
      ascii ''a19 = 19'',
      ascii ''a20 = 20'',
      ascii ''a21 = 21'',
      ascii ''a22 = 22'',
      ascii ''a23 = 23'',
      ascii ''a24 = 24'',
      ascii ''a25 = 25'',
      ascii ''a26 = 26'',
      ascii ''a27 = 27'',
      ascii ''a28 = 28'',
      ascii ''a29 = 29'',
      ascii ''def run():'',
      ascii ''    print(31)'',
      ascii ''    print(32)'',
      ascii ''    print(33)'',
      ascii ''    print(34)'',
      ascii ''    print(35)'',
      ascii ''    print(36)'',
      ascii ''    print(37)'',
      ascii ''    print(38)'',
      ascii ''    print(39)'',
      ascii ''    print(40)'',
      ascii ''    print(41)'',
      ascii ''    print(42)'',
      ascii ''    print(43)'',
      ascii ''    print(44)'',
      ascii ''    print(45)'',
      ascii ''    print(46)'',
      ascii ''    print(47)'',
      ascii ''if __name__ == '' @ [0x22] @ ascii ''__main__'' @ [0x22] @ ascii '': run()'',
      ascii ''# end'',
      ascii ''# eof'']"

definition scenario_doc :: jsstring where
  "scenario_doc = join [NL] scenario_lines"

text \<open>
  The invariant of the two loops of \<open>smartTruncateReadme\<close> on the pair
  \<open>(extracted, remainingBudget)\<close>: \<open>extracted\<close> is the introduction followed by
  fragments longer than 100 code units, what was extracted and what remains add up
  to \<open>maxLen\<close>, and the remaining budget is not negative once the introduction fits.
\<close>

definition kept_ok :: "int \<Rightarrow> jsstring \<Rightarrow> jsstring list \<times> int \<Rightarrow> bool" where
  "kept_ok maxLen intro st \<longleftrightarrow>
     (\<exists>kept. fst st = intro # kept \<and> list_all (\<lambda>t. 100 < len t) kept
        \<and> len intro + sum_list (map len kept) + snd st = maxLen)
     \<and> (len intro \<le> maxLen \<longrightarrow> 0 \<le> snd st)"

text \<open>
  Prose documents without headings: 500 letters \<open>a\<close>, then \<open>k\<close> fenced code blocks
  of \<open>w\<close> letters \<open>x\<close> each (three grave accents on either side), then one more
  \<open>a\<close>.
\<close>

definition fence_block :: "nat \<Rightarrow> jsstring" where
  "fence_block w = [0x60, 0x60, 0x60] @ replicate w 0x78 @ [0x60, 0x60, 0x60]"

definition fenced_doc :: "nat \<Rightarrow> nat \<Rightarrow> jsstring" where
  "fenced_doc w k = replicate 500 0x61 @ concat (replicate k (fence_block w)) @ [0x61]"

section \<open>Lengths and slices\<close>

lemma len_nonneg: "0 \<le> len s"
  by (simp add: len_def)

lemma len_slice0_le: "0 \<le> m \<Longrightarrow> len (slice s 0 m) \<le> m"
  by (simp add: slice_def slice_bound_def len_def)

lemma len_slice_le_len: "len (slice s 0 m) \<le> len s"
  by (simp add: slice_def slice_bound_def len_def)

lemma slice0_whole: "len s \<le> m \<Longrightarrow> slice s 0 m = s"
  by (simp add: slice_def slice_bound_def len_def)

lemma len_slice0: "0 \<le> m \<Longrightarrow> len (slice s 0 m) = min m (len s)"
  by (simp add: slice_def slice_bound_def len_def)

lemma total_len_nonneg: "0 \<le> total_len fs"
  by (induction fs) (simp_all add: total_len_def len_def)

section \<open>Identity within the budget\<close>

text \<open>
  C1. Whenever the content is no longer than \<open>maxLen\<close>, both
  \<open>smartTruncateReadme\<close> and \<open>smartTruncatePython\<close> return the content itself,
  unchanged.
\<close>

theorem identity_within_budget:
  "len content \<le> maxLen \<Longrightarrow>
     smartTruncateReadme content maxLen = content \<and> smartTruncatePython content maxLen = content"
  by (simp add: smartTruncateReadme_def smartTruncatePython_def)

theorem identity_within_budget_witness:
  "len (ascii ''# Title'') \<le> 7 \<and>
   smartTruncateReadme (ascii ''# Title'') 7 = ascii ''# Title'' \<and>
   smartTruncatePython (ascii ''# Title'') 7 = ascii ''# Title''"
  using identity_within_budget [of "ascii ''# Title''" 7]
  by (simp add: len_def ascii_def)

section \<open>The allocator\<close>

lemma allocate_bound:
  assumes T: "\<And>c m. 0 \<le> m \<Longrightarrow> len (T c m) \<le> m"
  shows "0 \<le> remaining \<Longrightarrow> total_len (allocate (Some T) per fs remaining) \<le> remaining"
proof (induction fs arbitrary: remaining)
  case Nil
  then show ?case by (simp add: total_len_def)
next
  case (Cons f fs)
  obtain name content where f: "f = (name, content)" by (cases f)
  show ?case
  proof (cases "remaining \<le> 0")
    case True
    with Cons.prems show ?thesis by (simp add: f total_len_def)
  next
    case False
    define budget where "budget = min remaining (max per 500)"
    have b: "0 \<le> budget" "budget \<le> remaining" using False by (auto simp: budget_def)
    have e: "len (T content budget) \<le> budget" using T b by simp
    have "total_len (allocate (Some T) per fs (remaining - len (T content budget)))
            \<le> remaining - len (T content budget)"
      using Cons.IH e b by simp
    then show ?thesis
      using False by (simp add: f total_len_def Let_def budget_def)
  qed
qed

text \<open>
  C4. A budget is a number of characters, so \<open>0 \<le> totalBudget\<close>, and so is every
  allowance \<open>m\<close> handed to the truncation function. If the supplied function never
  returns more than its allowance, the excerpts of \<open>truncateFilesByBudget\<close> together
  are no longer than the category budget: every allowance is
  \<open>min remaining (max perFileBudget 500)\<close>, hence at most what remains, also where
  the minimum of 500 exceeds the per-file share.
\<close>

theorem budget_plan_invariant:
  assumes "0 \<le> totalBudget"
    and "\<And>c m. 0 \<le> m \<Longrightarrow> len (T c m) \<le> m"
  shows "total_len (truncateFilesByBudget fileContents totalBudget (Some T)) \<le> totalBudget"
  using assms allocate_bound [of T totalBudget]
  by (simp add: truncateFilesByBudget_def Let_def total_len_def)

theorem budget_plan_invariant_witness:
  "(0::int) \<le> 600 \<and>
   total_len (truncateFilesByBudget
       [(ascii ''setup.py'', replicate 700 0x61), (ascii ''Pipfile'', replicate 300 0x62)]
       600 (Some (\<lambda>c m. slice c 0 m))) \<le> 600"
  using budget_plan_invariant [of 600 "\<lambda>c m. slice c 0 m"
      "[(ascii ''setup.py'', replicate 700 0x61), (ascii ''Pipfile'', replicate 300 0x62)]"]
  by (simp add: len_slice0_le)

lemma total_len_insort:
  "total_len (insort_key f x xs) = len (snd x) + total_len xs"
  by (induction xs) (simp_all add: total_len_def)

lemma total_len_sort: "total_len (sort_key f xs) = total_len xs"
  by (induction xs) (simp_all add: total_len_insort, simp add: total_len_def)

lemma allocate_default_le:
  "total_len (allocate None per fs remaining) \<le> total_len fs"
proof (induction fs arbitrary: remaining)
  case Nil
  then show ?case by (simp add: total_len_def)
next
  case (Cons f fs)
  obtain name content where f: "f = (name, content)" by (cases f)
  have "total_len (allocate None per fs r) \<le> total_len fs" for r
    using Cons.IH .
  from this [of "remaining - len (slice content 0 (min remaining (max per 500)))"]
  show ?case
    using len_slice_le_len [of content "min remaining (max per 500)"] total_len_nonneg [of fs]
    by (simp add: f total_len_def Let_def len_nonneg)
qed

lemma allocate_default_names:
  "total_len fs < remaining \<Longrightarrow> map fst (allocate None per fs remaining) = map fst fs"
proof (induction fs arbitrary: remaining)
  case Nil
  then show ?case by simp
next
  case (Cons f fs)
  obtain name content where f: "f = (name, content)" by (cases f)
  define excerpt where "excerpt = slice content 0 (min remaining (max per 500))"
  have tl: "total_len (f # fs) = len content + total_len fs"
    by (simp add: f total_len_def)
  have pos: "0 < remaining"
    using Cons.prems tl total_len_nonneg [of fs] len_nonneg [of content] by linarith
  have "len excerpt \<le> len content"
    unfolding excerpt_def by (rule len_slice_le_len)
  then have "total_len fs < remaining - len excerpt"
    using Cons.prems tl by linarith
  then have "map fst (allocate None per fs (remaining - len excerpt)) = map fst fs"
    by (rule Cons.IH)
  then show ?case
    using pos by (simp add: f Let_def excerpt_def)
qed

lemma allocate_default_whole:
  "total_len fs < remaining \<Longrightarrow>
   (total_len (allocate None per fs remaining) = total_len fs
      \<longleftrightarrow> (\<forall>entry \<in> set fs. len (snd entry) \<le> max per 500)) \<and>
   ((\<forall>entry \<in> set fs. len (snd entry) \<le> max per 500)
      \<longrightarrow> allocate None per fs remaining = fs)"
proof (induction fs arbitrary: remaining)
  case Nil
  then show ?case by simp
next
  case (Cons f fs)
  obtain name content where f: "f = (name, content)" by (cases f)
  define budget where "budget = min remaining (max per 500)"
  define excerpt where "excerpt = slice content 0 budget"
  have tl: "total_len (f # fs) = len content + total_len fs"
    by (simp add: f total_len_def)
  have pos: "0 < remaining"
    using Cons.prems tl total_len_nonneg [of fs] len_nonneg [of content] by linarith
  have bpos: "0 \<le> budget" using pos by (simp add: budget_def)
  have le: "len excerpt \<le> len content"
    unfolding excerpt_def by (rule len_slice_le_len)
  have lenx: "len excerpt = min budget (len content)"
    unfolding excerpt_def using bpos by (rule len_slice0)
  have rest: "total_len fs < remaining - len excerpt"
    using Cons.prems tl le by linarith
  note IH = Cons.IH [OF rest]
  have unfold: "allocate None per (f # fs) remaining
      = (name, excerpt) # allocate None per fs (remaining - len excerpt)"
    using pos by (simp add: f Let_def excerpt_def budget_def)
  have rest_le: "total_len (allocate None per fs (remaining - len excerpt)) \<le> total_len fs"
    by (rule allocate_default_le)
  have fits: "len content \<le> max per 500 \<longleftrightarrow> len excerpt = len content"
  proof -
    have "len content < remaining"
      using Cons.prems tl total_len_nonneg [of fs] by linarith
    then show ?thesis unfolding lenx budget_def by auto
  qed
  have whole: "len excerpt = len content \<Longrightarrow> excerpt = content"
    unfolding excerpt_def using lenx by (intro slice0_whole) (simp add: excerpt_def min_def split: if_splits)
  have A: "total_len (allocate None per (f # fs) remaining) = total_len (f # fs)
      \<longleftrightarrow> (\<forall>entry \<in> set (f # fs). len (snd entry) \<le> max per 500)"
  proof
    assume eq: "total_len (allocate None per (f # fs) remaining) = total_len (f # fs)"
    then have "len excerpt + total_len (allocate None per fs (remaining - len excerpt))
        = len content + total_len fs"
      by (simp add: unfold tl) (simp add: total_len_def)
    with le rest_le have "len excerpt = len content"
      and "total_len (allocate None per fs (remaining - len excerpt)) = total_len fs"
      by linarith+
    with IH fits show "\<forall>entry \<in> set (f # fs). len (snd entry) \<le> max per 500"
      by (simp add: f)
  next
    assume all: "\<forall>entry \<in> set (f # fs). len (snd entry) \<le> max per 500"
    then have "len excerpt = len content" using fits by (simp add: f)
    moreover have "total_len (allocate None per fs (remaining - len excerpt)) = total_len fs"
      using IH all by simp
    ultimately show "total_len (allocate None per (f # fs) remaining) = total_len (f # fs)"
      by (simp add: unfold tl) (simp add: total_len_def)
  qed
  have B: "(\<forall>entry \<in> set (f # fs). len (snd entry) \<le> max per 500)
      \<longrightarrow> allocate None per (f # fs) remaining = f # fs"
  proof
    assume all: "\<forall>entry \<in> set (f # fs). len (snd entry) \<le> max per 500"
    then have "excerpt = content" using fits whole by (simp add: f)
    moreover have "allocate None per fs (remaining - len excerpt) = fs"
      using IH all by simp
    ultimately show "allocate None per (f # fs) remaining = f # fs"
      unfolding unfold by (simp add: f)
  qed
  from A B show ?case by blast
qed

text \<open>
  C3, as the code has it. For a non-empty set of files whose contents together are
  shorter than the budget, the default slice gives every file an excerpt, in order
  of size; the excerpts together are as long as the contents exactly when no file is
  longer than the per-file allowance \<open>max (totalBudget div n) 500\<close>, and then every
  excerpt is the whole content. The allowance is fixed before the loop and never
  raised by what smaller files left unused.
\<close>

theorem allocator_conservation_capped:
  assumes "fileContents \<noteq> []"
    and "total_len fileContents < totalBudget"
  shows "map fst (truncateFilesByBudget fileContents totalBudget None)
           = map fst (sort_key (\<lambda>entry. length (snd entry)) fileContents)
       \<and> (total_len (truncateFilesByBudget fileContents totalBudget None) = total_len fileContents
            \<longleftrightarrow> (\<forall>entry \<in> set fileContents.
                   len (snd entry) \<le> max (totalBudget div len fileContents) 500))
       \<and> ((\<forall>entry \<in> set fileContents.
              len (snd entry) \<le> max (totalBudget div len fileContents) 500)
            \<longrightarrow> truncateFilesByBudget fileContents totalBudget None
                  = sort_key (\<lambda>entry. length (snd entry)) fileContents)"
proof -
  define files where "files = sort_key (\<lambda>entry. length (snd entry)) fileContents"
  have t: "total_len files = total_len fileContents"
    unfolding files_def by (rule total_len_sort)
  have s: "set files = set fileContents" and l: "len files = len fileContents"
    unfolding files_def by (simp_all add: len_def)
  have lt: "total_len files < totalBudget" using assms(2) t by simp
  have u: "truncateFilesByBudget fileContents totalBudget None
      = allocate None (totalBudget div len fileContents) files totalBudget"
    using assms(1) by (simp add: truncateFilesByBudget_def Let_def files_def l [unfolded files_def])
  show ?thesis
    unfolding u files_def [symmetric]
    using allocate_default_names [OF lt, of "totalBudget div len fileContents"]
      allocate_default_whole [OF lt, of "totalBudget div len fileContents"]
    by (simp add: t s)
qed

text \<open>
  C3 as stated fails: two files of 1 and 600 characters under a budget of 1000 have an
  allowance of 500 each, and the larger one is cut to 500 although 999 remain.
\<close>

theorem allocator_conservation_counterexample:
  "[(ascii ''a.txt'', ascii ''x''), (ascii ''b.txt'', replicate 600 0x79)] \<noteq> []
   \<and> total_len [(ascii ''a.txt'', ascii ''x''), (ascii ''b.txt'', replicate 600 0x79)] = 601
   \<and> 601 < (1000::int)
   \<and> total_len (truncateFilesByBudget
        [(ascii ''a.txt'', ascii ''x''), (ascii ''b.txt'', replicate 600 0x79)] 1000 None) = 501"
  by (simp add: total_len_def truncateFilesByBudget_def len_def ascii_def slice_def
      slice_bound_def Let_def)

theorem allocator_conservation_capped_witness:
  "total_len [(ascii ''a.txt'', ascii ''x''), (ascii ''b.txt'', replicate 400 0x79)] < 1000
   \<and> truncateFilesByBudget
        [(ascii ''a.txt'', ascii ''x''), (ascii ''b.txt'', replicate 400 0x79)] 1000 None
      = [(ascii ''a.txt'', ascii ''x''), (ascii ''b.txt'', replicate 400 0x79)]"
  using allocator_conservation_capped
    [of "[(ascii ''a.txt'', ascii ''x''), (ascii ''b.txt'', replicate 400 0x79)]" 1000]
  by (simp add: total_len_def len_def ascii_def)

section \<open>The two scans of smartTruncatePython\<close>

lemma slice_from_nonneg: "0 \<le> b \<Longrightarrow> slice_from s b = drop (nat b) s"
  by (simp add: slice_from_def slice_bound_def len_def min_def)

lemma scan_imports_no_import:
  "\<not> list_ex is_import ls \<Longrightarrow> scan_imports ls i st = st"
  by (induction ls arbitrary: i) simp_all

lemma scan_imports_block:
  "acc \<noteq> [] \<Longrightarrow>
   fst (scan_imports ls i (acc, e))
     = acc @ filter is_import (takeWhile (\<lambda>l. is_import l \<or> trim l = []) ls)"
  by (induction ls arbitrary: i acc e) simp_all

lemma scan_imports_fst:
  "fst (scan_imports ls i ([], e))
     = filter is_import (takeWhile (\<lambda>l. is_import l \<or> trim l = [])
         (dropWhile (\<lambda>l. \<not> is_import l) ls))"
  by (induction ls arbitrary: i) (simp_all add: scan_imports_block)

lemma scan_imports_empty_iff:
  "fst (scan_imports ls i ([], e)) = [] \<longleftrightarrow> \<not> list_ex is_import ls"
proof (induction ls arbitrary: i)
  case Nil
  then show ?case by simp
next
  case (Cons l ls)
  then show ?case by (simp add: scan_imports_block)
qed

lemma run_end_Cons:
  "run_end (l # ls) =
     (if is_import l then Suc (run_end ls)
      else if trim l = [] then (if run_end ls = 0 then 0 else Suc (run_end ls))
      else 0)"
proof -
  let ?Q = "\<lambda>l. \<not> is_import l"
  have app: "length (dropWhile ?Q (xs @ [l])) =
      (if length (dropWhile ?Q xs) = 0 then length (dropWhile ?Q [l])
       else Suc (length (dropWhile ?Q xs)))" for xs
    by (induction xs) simp_all
  show ?thesis
    by (simp add: run_end_def app)
qed

lemma scan_imports_end_acc:
  "acc \<noteq> [] \<Longrightarrow>
   snd (scan_imports ls i (acc, e)) = (if run_end ls = 0 then e else i + int (run_end ls) - 1)"
proof (induction ls arbitrary: i acc e)
  case Nil
  then show ?case by (simp add: run_end_def)
next
  case (Cons l ls)
  then show ?case by (simp add: run_end_Cons)
qed

lemma scan_imports_end:
  "snd (scan_imports ls i ([], e)) =
     (if list_ex is_import ls
      then i + int (length (takeWhile (\<lambda>l. \<not> is_import l) ls))
             + int (run_end (dropWhile (\<lambda>l. \<not> is_import l) ls)) - 1
      else e)"
proof (induction ls arbitrary: i)
  case Nil
  then show ?case by simp
next
  case (Cons l ls)
  show ?case
  proof (cases "is_import l")
    case True
    then show ?thesis by (simp add: scan_imports_end_acc run_end_Cons)
  next
    case False
    then show ?thesis using Cons.IH [of "i + 1"] by simp
  qed
qed

lemma scan_entry_skip:
  "\<not> list_ex is_entry post \<Longrightarrow>
   scan_entry (rev post @ earlier) i = scan_entry earlier (i - len post)"
proof (induction post arbitrary: i rule: rev_induct)
  case Nil
  then show ?case by (simp add: len_def)
next
  case (snoc l post)
  then show ?case by (simp add: len_def algebra_simps)
qed

lemma find_entry_last:
  assumes "is_entry l" and "\<not> list_ex is_entry post"
  shows "find_entry (pre @ l # post) = len pre"
proof -
  have "find_entry (pre @ l # post) = scan_entry (rev post @ l # rev pre) (len (pre @ l # post) - 1)"
    by (simp add: find_entry_def)
  also have "\<dots> = scan_entry (l # rev pre) (len (pre @ l # post) - 1 - len post)"
    using assms(2) by (rule scan_entry_skip)
  also have "\<dots> = len pre"
    using assms(1) by (simp add: len_def)
  finally show ?thesis .
qed

lemma find_entry_none:
  "\<not> list_ex is_entry lines \<Longrightarrow> find_entry lines = - 1"
  using scan_entry_skip [of lines "[]" "len lines - 1"] by (simp add: find_entry_def)


lemma scan_imports_end_nonneg:
  "0 \<le> i \<Longrightarrow> 0 \<le> e \<Longrightarrow> 0 \<le> snd (scan_imports ls i (acc, e))"
  by (induction ls arbitrary: i acc e) simp_all

lemma preamble_after_blanks:
  "list_all (\<lambda>l. trim l = []) (takeWhile (\<lambda>l. \<not> is_import l) ls) \<Longrightarrow>
   filter is_import (takeWhile (\<lambda>l. is_import l \<or> trim l = []) (dropWhile (\<lambda>l. \<not> is_import l) ls))
     = spec_preamble ls"
  unfolding spec_preamble_def by (induction ls) (auto split: if_splits)

text \<open>
  C8, as the code has it. The import block is the run that starts at the first
  import-style line of the file, wherever it stands: every line before it, blank or
  not, is passed over. From there blank lines are tolerated and the run ends before
  the first line that is neither import-style nor blank. The block is empty exactly
  when no line of the file is import-style, and \<open>importEnd\<close> is the index of the
  last import-style line of the run (0 without one). When only blank lines come
  before the first import-style line, the block is the preamble the specification
  describes.
\<close>

theorem import_block_from_first_import:
  "fst (scan_imports lines 0 ([], 0))
     = filter is_import (takeWhile (\<lambda>l. is_import l \<or> trim l = [])
         (dropWhile (\<lambda>l. \<not> is_import l) lines))
   \<and> (fst (scan_imports lines 0 ([], 0)) = [] \<longleftrightarrow> \<not> list_ex is_import lines)
   \<and> snd (scan_imports lines 0 ([], 0))
       = (if list_ex is_import lines
          then int (length (takeWhile (\<lambda>l. \<not> is_import l) lines))
                 + int (run_end (dropWhile (\<lambda>l. \<not> is_import l) lines)) - 1
          else 0)
   \<and> (list_all (\<lambda>l. trim l = []) (takeWhile (\<lambda>l. \<not> is_import l) lines)
        \<longrightarrow> fst (scan_imports lines 0 ([], 0)) = spec_preamble lines)"
proof -
  have "list_all (\<lambda>l. trim l = []) (takeWhile (\<lambda>l. \<not> is_import l) lines)
      \<longrightarrow> fst (scan_imports lines 0 ([], 0)) = spec_preamble lines"
    using preamble_after_blanks [of lines] by (simp only: scan_imports_fst) blast
  moreover have "snd (scan_imports lines 0 ([], 0))
       = (if list_ex is_import lines
          then int (length (takeWhile (\<lambda>l. \<not> is_import l) lines))
                 + int (run_end (dropWhile (\<lambda>l. \<not> is_import l) lines)) - 1
          else 0)"
    by (simp only: scan_imports_end) simp
  ultimately show ?thesis
    using scan_imports_fst [of lines 0 0] scan_imports_empty_iff [of lines 0 0] by blast
qed

text \<open>
  C8 as stated fails: in a file whose first line \<open>x = 1\<close> is neither blank nor an
  import, the later \<open>import os\<close> is collected all the same and opens the output.
\<close>

theorem import_block_counterexample:
  "\<not> is_import (ascii ''x = 1'') \<and> trim (ascii ''x = 1'') \<noteq> []
   \<and> split_nl late_import_doc = [ascii ''x = 1'', ascii ''import os'', ascii ''y = 2'']
   \<and> spec_preamble (split_nl late_import_doc) = []
   \<and> fst (scan_imports (split_nl late_import_doc) 0 ([], 0)) = [ascii ''import os'']
   \<and> smartTruncatePython late_import_doc 20 = join [NL] [ascii ''import os'', ascii ''y = 2'']"
  by code_simp

theorem import_block_from_first_import_witness:
  "list_all (\<lambda>l. trim l = []) (takeWhile (\<lambda>l. \<not> is_import l) [[], ascii ''import os'', ascii ''x = 1''])
   \<and> fst (scan_imports [[], ascii ''import os'', ascii ''x = 1''] 0 ([], 0)) = [ascii ''import os'']
   \<and> snd (scan_imports [[], ascii ''import os'', ascii ''x = 1''] 0 ([], 0)) = 1"
proof -
  have a: "list_all (\<lambda>l. trim l = []) (takeWhile (\<lambda>l. \<not> is_import l) [[], ascii ''import os'', ascii ''x = 1''])"
    by code_simp
  have b: "spec_preamble [[], ascii ''import os'', ascii ''x = 1''] = [ascii ''import os'']"
    by code_simp
  have c: "snd (scan_imports [[], ascii ''import os'', ascii ''x = 1''] 0 ([], 0)) = 1"
    by code_simp
  from import_block_from_first_import [of "[[], ascii ''import os'', ascii ''x = 1'']"] a
  have "fst (scan_imports [[], ascii ''import os'', ascii ''x = 1''] 0 ([], 0))
      = spec_preamble [[], ascii ''import os'', ascii ''x = 1'']"
    by blast
  with a b c show ?thesis by (simp only:)
qed

lemma split_nl_nonempty: "split_nl s \<noteq> []"
  by (induction s) (simp_all split: list.splits)

text \<open>
  C10. For a non-empty content longer than \<open>maxLen\<close> without any import-style line
  and without any entry line, \<open>importEnd\<close> is still 0 and the fallback takes its body
  from line index 1 on: the output is built from the lines after the first alone (an
  empty import section in front when \<open>0 < maxLen div 2\<close>), so the first line of the
  document has no part in it.
\<close>

theorem fallback_drops_first_line:
  assumes "content \<noteq> []"
    and "maxLen < len content"
    and "\<not> list_ex is_import (split_nl content)"
    and "\<not> list_ex is_entry (split_nl content)"
    and "middle = join [NL] (tl (split_nl content))"
  shows "smartTruncatePython content maxLen =
           join [NL] ((if 0 < maxLen div 2 then [[]] else []) @
                      (if len middle \<le> maxLen then [middle]
                       else [slice middle 0 (trunc_half maxLen), marker,
                             slice_from middle (trunc_half (- maxLen))]))"
proof -
  have i: "scan_imports (split_nl content) 0 ([], 0) = ([], 0)"
    using assms(3) by (rule scan_imports_no_import)
  have e: "find_entry (split_nl content) = - 1"
    using assms(4) by (rule find_entry_none)
  have m: "slice_from (split_nl content) 1 = tl (split_nl content)"
    by (simp add: slice_from_nonneg drop_Suc)
  show ?thesis
    using assms(1,2)
    by (simp add: smartTruncatePython_def Let_def i e head_tail_part_def m assms(5) len_def)
qed

theorem fallback_drops_first_line_witness:
  "plain_doc \<noteq> [] \<and> 10 < len plain_doc
   \<and> split_nl plain_doc = [ascii ''FIRST'', ascii ''second line'', ascii ''third line'']
   \<and> smartTruncatePython plain_doc 10
       = join [NL] [[], ascii ''secon'', marker, ascii '' line'']"
proof -
  have a: "plain_doc \<noteq> []" by code_simp
  have b: "10 < len plain_doc" by code_simp
  have c: "\<not> list_ex is_import (split_nl plain_doc)" by code_simp
  have d: "\<not> list_ex is_entry (split_nl plain_doc)" by code_simp
  have s: "split_nl plain_doc = [ascii ''FIRST'', ascii ''second line'', ascii ''third line'']"
    by code_simp
  have r: "join [NL] ((if 0 < (10::int) div 2 then [[]] else []) @
                      (if len (join [NL] (tl (split_nl plain_doc))) \<le> 10
                       then [join [NL] (tl (split_nl plain_doc))]
                       else [slice (join [NL] (tl (split_nl plain_doc))) 0 (trunc_half 10), marker,
                             slice_from (join [NL] (tl (split_nl plain_doc))) (trunc_half (- 10))]))
           = join [NL] [[], ascii ''secon'', marker, ascii '' line'']"
    by code_simp
  from fallback_drops_first_line [OF a b c d refl]
  have "smartTruncatePython plain_doc 10 = join [NL] [[], ascii ''secon'', marker, ascii '' line'']"
    by (simp only: r)
  with a b s show ?thesis by blast
qed

lemma python_entry_output:
  assumes "content \<noteq> []" and "maxLen < len content"
    and "lines = split_nl content"
    and "find_entry lines = entryStart" and "0 \<le> entryStart"
    and "imports = scan_imports lines 0 ([], 0)"
    and "importSection = join [NL] (fst imports)"
    and "currentLen = (if len importSection < maxLen div 2 then len importSection else 0)"
    and "start = max (entryStart - 20) (snd imports + 1)"
    and "window = join [NL] (drop (nat start) lines)"
  shows "smartTruncatePython content maxLen =
           join [NL] ((if len importSection < maxLen div 2 then [importSection] else []) @
             (if currentLen + len window \<le> maxLen
              then (if snd imports + 1 < start then [marker] else []) @ [window]
              else if 0 < maxLen - currentLen - 50
                   then [marker, slice_from window (- (maxLen - currentLen - 50))]
                   else []))"
proof -
  have "0 \<le> snd imports"
    unfolding assms(6) by (rule scan_imports_end_nonneg) simp_all
  then have s: "0 \<le> start" unfolding assms(9) by simp
  have w: "slice_from lines (contextStart entryStart (snd imports)) = drop (nat start) lines"
    using s by (simp add: contextStart_def assms(9) [symmetric] slice_from_nonneg)
  have e: "find_entry lines \<noteq> - 1" using assms(4,5) by simp
  have "smartTruncatePython content maxLen =
      join [NL] ((if len importSection < maxLen div 2 then [importSection] else []) @
                 entry_part lines entryStart (snd imports) currentLen maxLen)"
    using assms(1,2) e
    by (cases "len importSection < maxLen div 2")
      (simp_all add: smartTruncatePython_def Let_def assms(3) [symmetric] assms(6) [symmetric]
        assms(7) [symmetric] assms(8) assms(4))
  also have "entry_part lines entryStart (snd imports) currentLen maxLen =
      (if currentLen + len window \<le> maxLen
       then (if snd imports + 1 < start then [marker] else []) @ [window]
       else if 0 < maxLen - currentLen - 50
            then [marker, slice_from window (- (maxLen - currentLen - 50))]
            else [])"
    by (simp add: entry_part_def Let_def w assms(10) [symmetric])
      (simp add: contextStart_def assms(9) [symmetric])
  finally show ?thesis .
qed

lemma find_entry_at:
  assumes "j < length lines" and "is_entry (lines ! j)"
    and "\<not> list_ex is_entry (drop (Suc j) lines)"
  shows "find_entry lines = int j"
proof -
  have d: "lines = take j lines @ lines ! j # drop (Suc j) lines"
    using assms(1) by (simp add: id_take_nth_drop)
  have "find_entry (take j lines @ lines ! j # drop (Suc j) lines) = len (take j lines)"
    using assms(2,3) by (rule find_entry_last)
  then show ?thesis
    using d assms(1) by (simp add: len_def)
qed

text \<open>
  C6, as the code has it. When two or more lines match an entry pattern, the backward
  scan returns the index \<open>j\<close> of the last of them, not an earlier index \<open>i\<close>. The
  context window (\<open>entrySection\<close>) runs from line \<open>max (j - 20) (importEnd + 1)\<close> to
  the end of the file. The window is retained whole, after the import section (when
  that is shorter than half the budget) and the marker (when lines were left out),
  provided \<open>currentLen\<close> plus its length is at most \<open>maxLen\<close>. A window that does not
  fit is replaced by the marker and its last \<open>maxLen - currentLen - 50\<close> code units,
  or by nothing when that number is not positive.
\<close>

theorem backward_entry_preference:
  assumes "maxLen < len content"
    and "lines = split_nl content"
    and "i < j" and "j < length lines"
    and "is_entry (lines ! i)" and "is_entry (lines ! j)"
    and "\<not> list_ex is_entry (drop (Suc j) lines)"
    and "imports = scan_imports lines 0 ([], 0)"
    and "importSection = join [NL] (fst imports)"
    and "currentLen = (if len importSection < maxLen div 2 then len importSection else 0)"
    and "start = max (int j - 20) (snd imports + 1)"
    and "window = join [NL] (drop (nat start) lines)"
  shows "find_entry lines = int j
       \<and> smartTruncatePython content maxLen =
           join [NL] ((if len importSection < maxLen div 2 then [importSection] else []) @
             (if currentLen + len window \<le> maxLen
              then (if snd imports + 1 < start then [marker] else []) @ [window]
              else if 0 < maxLen - currentLen - 50
                   then [marker, slice_from window (- (maxLen - currentLen - 50))]
                   else []))"
proof -
  have e: "find_entry lines = int j"
    using assms(4,6,7) by (rule find_entry_at)
  have ne: "content \<noteq> []"
    using assms(2,3,4) by auto
  have j: "0 \<le> int j" by simp
  show ?thesis
    using e python_entry_output [OF ne assms(1,2) e j assms(8,9,10,11,12)] by simp
qed

theorem backward_entry_preference_witness:
  "79 < len two_entry_doc
   \<and> is_entry (split_nl two_entry_doc ! 1) \<and> is_entry (split_nl two_entry_doc ! 25)
   \<and> find_entry (split_nl two_entry_doc) = 25
   \<and> smartTruncatePython two_entry_doc 79 =
       join [NL] [ascii ''import os'', marker,
                  join [NL] (replicate 20 (ascii ''x'') @ [ascii ''def run():'', ascii ''y''])]"
proof -
  have a: "79 < len two_entry_doc" by code_simp
  have b: "(1::nat) < 25" by simp
  have c: "25 < length (split_nl two_entry_doc)" by code_simp
  have d: "is_entry (split_nl two_entry_doc ! 1)" by code_simp
  have e: "is_entry (split_nl two_entry_doc ! 25)" by code_simp
  have f: "\<not> list_ex is_entry (drop (Suc 25) (split_nl two_entry_doc))" by code_simp
  have r: "smartTruncatePython two_entry_doc 79 =
       join [NL] [ascii ''import os'', marker,
                  join [NL] (replicate 20 (ascii ''x'') @ [ascii ''def run():'', ascii ''y''])]"
    by code_simp
  from backward_entry_preference [OF a refl b c d e f refl refl refl refl refl]
  have "find_entry (split_nl two_entry_doc) = 25" by simp
  with a d e r show ?thesis by blast
qed

text \<open>
  C6 as stated fails when the window does not fit: \<open>two_entry_doc\<close> has the import
  section of 9 and a window of 52 code units. With \<open>maxLen = 60\<close> the output is the
  import line, the marker and the last code unit of the window, without the selected
  entry line \<open>def run():\<close>; with \<open>maxLen = 59\<close> it is the import line alone.
\<close>

theorem backward_entry_window_counterexample:
  "60 < len two_entry_doc
   \<and> is_entry (split_nl two_entry_doc ! 1) \<and> is_entry (split_nl two_entry_doc ! 25)
   \<and> find_entry (split_nl two_entry_doc) = 25
   \<and> snd (scan_imports (split_nl two_entry_doc) 0 ([], 0)) = 0
   \<and> split_nl two_entry_doc ! 25 = ascii ''def run():''
   \<and> smartTruncatePython two_entry_doc 60 = join [NL] [ascii ''import os'', marker, ascii ''y'']
   \<and> \<not> str_includes (smartTruncatePython two_entry_doc 60) (ascii ''def run():'')
   \<and> smartTruncatePython two_entry_doc 59 = ascii ''import os''"
  by code_simp

lemma scan_imports_prefix:
  "list_all is_import xs \<Longrightarrow> xs \<noteq> [] \<Longrightarrow>
   scan_imports (xs @ ys) i (acc, e) = scan_imports ys (i + len xs) (acc @ xs, i + len xs - 1)"
proof (induction xs arbitrary: i acc e)
  case Nil
  then show ?case by simp
next
  case (Cons x xs)
  show ?case
  proof (cases "xs = []")
    case True
    with Cons.prems show ?thesis by (simp add: len_def)
  next
    case False
    with Cons.prems Cons.IH [of "i + 1" "acc @ [x]" i] show ?thesis
      by (simp add: len_def algebra_simps)
  qed
qed

lemma split_nl_plain: "NL \<notin> set l \<Longrightarrow> split_nl l = [l]"
  by (induction l) auto

lemma split_nl_line: "NL \<notin> set l \<Longrightarrow> split_nl (l @ NL # rest) = l # split_nl rest"
  by (induction l) auto

lemma split_nl_join:
  "ls \<noteq> [] \<Longrightarrow> list_all (\<lambda>l. NL \<notin> set l) ls \<Longrightarrow> split_nl (join [NL] ls) = ls"
  by (induction "[NL]" ls rule: join.induct) (simp_all add: split_nl_plain split_nl_line)

lemma length_join:
  "length (join sep ls) = sum_list (map length ls) + length sep * (length ls - 1)"
  by (induction sep ls rule: join.induct) simp_all

lemma scenario_output:
  assumes "800 < len content"
    and "lines = split_nl content"
    and "length lines = 50"
    and "list_all is_import (take 5 lines)"
    and "\<not> list_ex is_import (drop 5 lines)"
    and "is_entry (lines ! 47)"
    and "\<not> list_ex is_entry (drop 48 lines)"
    and "len (join [NL] (take 5 lines)) < 400"
    and "len (join [NL] (take 5 lines)) + len (join [NL] (drop 27 lines)) \<le> 800"
  shows "smartTruncatePython content 800 =
           join [NL] [join [NL] (take 5 lines), marker, join [NL] (drop 27 lines)]"
proof -
  have ne: "content \<noteq> []" using assms(1) by (auto simp: len_def)
  have t5: "take 5 lines \<noteq> []" "len (take 5 lines) = 5"
    using assms(3) by (auto simp: len_def)
  have "scan_imports (take 5 lines @ drop 5 lines) 0 ([], 0)
      = scan_imports (drop 5 lines) (0 + len (take 5 lines)) ([] @ take 5 lines, 0 + len (take 5 lines) - 1)"
    using assms(4) t5(1) by (rule scan_imports_prefix)
  also have "\<dots> = (take 5 lines, 4)"
    using assms(5) by (simp add: scan_imports_no_import t5(2))
  finally have im: "scan_imports lines 0 ([], 0) = (take 5 lines, 4)" by simp
  have e: "find_entry lines = int 47"
    using assms(3,6,7) by (intro find_entry_at) simp_all
  have "smartTruncatePython content 800 =
           join [NL] ((if len (join [NL] (take 5 lines)) < 800 div 2 then [join [NL] (take 5 lines)] else []) @
             (if len (join [NL] (take 5 lines)) + len (join [NL] (drop (nat 27) lines)) \<le> 800
              then (if snd (take 5 lines, 4::int) + 1 < 27 then [marker] else []) @ [join [NL] (drop (nat 27) lines)]
              else if 0 < 800 - len (join [NL] (take 5 lines)) - 50
                   then [marker, slice_from (join [NL] (drop (nat 27) lines)) (- (800 - len (join [NL] (take 5 lines)) - 50))]
                   else []))"
    using python_entry_output [OF ne assms(1,2) e _ im [symmetric] _ _ _ refl,
        of "join [NL] (take 5 lines)" "len (join [NL] (take 5 lines))" 27] assms(8)
    by simp
  then show ?thesis using assms(8,9) by simp
qed

lemma starts_with_length: "starts_with s t \<Longrightarrow> length t \<le> length s"
  by (induction s t rule: starts_with.induct) simp_all

lemma str_includes_length: "str_includes s t \<Longrightarrow> length t \<le> length s"
  by (induction s) (auto dest: starts_with_length)

lemma scenario_split: "split_nl scenario_doc = scenario_lines"
proof -
  have "scenario_lines \<noteq> []" by (simp add: scenario_lines_def)
  moreover have "list_all (\<lambda>l. NL \<notin> set l) scenario_lines"
    by (simp add: scenario_lines_def ascii_def NL_def)
  ultimately show ?thesis unfolding scenario_doc_def by (rule split_nl_join)
qed

lemma scenario_lengths:
  "800 < len scenario_doc"
  "length scenario_lines = 50"
  "len (join [NL] (take 5 scenario_lines)) < 400"
  "len (join [NL] (take 5 scenario_lines)) + len (join [NL] (drop 27 scenario_lines)) \<le> 800"
  by (simp_all add: scenario_doc_def length_join scenario_lines_def ascii_def len_def del: join.simps)

lemma scenario_imports:
  "list_all is_import (take 5 scenario_lines)"
  "\<not> list_ex is_import (drop 5 scenario_lines)"
  by (simp_all add: scenario_lines_def ascii_def) code_simp+

lemma scenario_entries:
  "is_entry (scenario_lines ! 29)"
  "is_entry (scenario_lines ! 47)"
  "\<not> list_ex is_entry (drop 48 scenario_lines)"
  by (simp_all add: scenario_lines_def ascii_def) code_simp+

lemmas scenario_facts = scenario_lengths scenario_imports scenario_entries

text \<open>
  C7, as the code has it. In a source file of 50 lines, longer than 800 code units,
  whose first five lines are its only import lines, with an entry line at line 30
  (\<open>def run():\<close>) and the last entry line at line 48 (the \<open>__main__\<close> guard), the
  window is anchored at line 48: with budget 800 the output is the five import lines,
  the elision marker and lines 28 to 50 (the 20 lines before line 48 through the end
  of the file), provided the import lines and that window fit in 800 code units.
  Lines are counted from 1 here and from 0 in \<open>lines ! k\<close>.
\<close>

theorem scenario_window_from_later_match:
  assumes "800 < len content"
    and "lines = split_nl content"
    and "length lines = 50"
    and "list_all is_import (take 5 lines)"
    and "\<not> list_ex is_import (drop 5 lines)"
    and "is_entry (lines ! 29)"
    and "is_entry (lines ! 47)"
    and "\<not> list_ex is_entry (drop 48 lines)"
    and "len (join [NL] (take 5 lines)) < 400"
    and "len (join [NL] (take 5 lines)) + len (join [NL] (drop 27 lines)) \<le> 800"
  shows "smartTruncatePython content 800 =
           join [NL] [join [NL] (take 5 lines), marker, join [NL] (drop 27 lines)]"
  using assms(1,2,3,4,5,7,8,9,10) by (rule scenario_output)

theorem scenario_window_from_later_match_witness:
  "800 < len scenario_doc \<and> length (split_nl scenario_doc) = 50
   \<and> is_entry (split_nl scenario_doc ! 29) \<and> is_entry (split_nl scenario_doc ! 47)
   \<and> smartTruncatePython scenario_doc 800 =
        join [NL] [join [NL] (take 5 scenario_lines), marker, join [NL] (drop 27 scenario_lines)]"
  using scenario_window_from_later_match [of scenario_doc scenario_lines] scenario_facts
  by (simp add: scenario_split)

text \<open>
  C7 as stated fails on \<open>scenario_doc\<close>: lines 10 to 50 together with the import
  lines and a marker would fit in 800 code units, yet the output does not contain
  them; the window starts at line 28.
\<close>

theorem scenario_counterexample:
  "800 < len scenario_doc \<and> length (split_nl scenario_doc) = 50
   \<and> list_all is_import (take 5 (split_nl scenario_doc))
   \<and> \<not> list_ex is_import (drop 5 (split_nl scenario_doc))
   \<and> is_entry (split_nl scenario_doc ! 29) \<and> is_entry (split_nl scenario_doc ! 47)
   \<and> len (join [NL] [join [NL] (take 5 (split_nl scenario_doc)), marker,
                      join [NL] (drop 9 (split_nl scenario_doc))]) \<le> 800
   \<and> \<not> str_includes (smartTruncatePython scenario_doc 800)
          (join [NL] (drop 9 (split_nl scenario_doc)))"
proof -
  have out: "smartTruncatePython scenario_doc 800 =
        join [NL] [join [NL] (take 5 scenario_lines), marker, join [NL] (drop 27 scenario_lines)]"
    using scenario_output [of scenario_doc scenario_lines] scenario_facts
    by (simp add: scenario_split)
  have fit: "len (join [NL] [join [NL] (take 5 scenario_lines), marker,
                      join [NL] (drop 9 scenario_lines)]) \<le> 800"
    by (simp add: scenario_lines_def ascii_def marker_def length_join len_def del: join.simps)
  have "length (join [NL] [join [NL] (take 5 scenario_lines), marker, join [NL] (drop 27 scenario_lines)])
      < length (join [NL] (drop 9 scenario_lines))"
    by (simp add: scenario_lines_def ascii_def marker_def length_join len_def del: join.simps)
  then have "\<not> str_includes (smartTruncatePython scenario_doc 800) (join [NL] (drop 9 scenario_lines))"
    unfolding out using str_includes_length by fastforce
  with fit scenario_facts show ?thesis
    by (simp add: scenario_split)
qed

section \<open>The loops of smartTruncateReadme\<close>

lemma len_slice0_pos: "0 < r \<Longrightarrow> slice m 0 r = take (nat r) m"
  by (simp add: slice_def slice_bound_def len_def min_def)

lemma consider_match_rule:
  "0 < remainingBudget \<Longrightarrow>
   consider_match intro m (extracted, remainingBudget) =
     (if str_includes intro m then (extracted, remainingBudget)
      else if length (take (nat remainingBudget) m) \<le> 100 then (extracted, remainingBudget)
      else (extracted @ [take (nat remainingBudget) m],
            remainingBudget - int (length (take (nat remainingBudget) m))))"
  by (auto simp add: consider_match_def Let_def len_slice0_pos len_def)

lemma consider_match_ok:
  assumes "kept_ok maxLen intro st" and "0 < snd st"
  shows "kept_ok maxLen intro (consider_match intro m st)"
proof -
  obtain ex r where st: "st = (ex, r)" by (cases st)
  from assms(1) obtain kept where k: "ex = intro # kept" "list_all (\<lambda>t. 100 < len t) kept"
      "len intro + sum_list (map len kept) + r = maxLen"
    unfolding kept_ok_def st by auto
  have r: "0 < r" using assms(2) st by simp
  let ?t = "take (nat r) m"
  show ?thesis
  proof (cases "str_includes intro m \<or> length ?t \<le> 100")
    case True
    then have "consider_match intro m st = st"
      unfolding st using consider_match_rule [OF r] by auto
    with assms(1) show ?thesis by simp
  next
    case False
    then have c: "consider_match intro m st = (ex @ [?t], r - int (length ?t))"
      unfolding st using consider_match_rule [OF r] by auto
    have le: "int (length ?t) \<le> r" using r by simp
    show ?thesis
      unfolding c kept_ok_def
      using k False le
      by (auto simp: len_def intro!: exI [of _ "kept @ [?t]"])
  qed
qed

lemma collect_matches_ok:
  "kept_ok maxLen intro st \<Longrightarrow> kept_ok maxLen intro (collect_matches intro ms st)"
proof (induction ms arbitrary: st)
  case Nil
  then show ?case by simp
next
  case (Cons m ms)
  show ?case
  proof (cases "snd st \<le> 0")
    case True
    with Cons.prems show ?thesis by simp
  next
    case False
    then have "kept_ok maxLen intro (consider_match intro m st)"
      using Cons.prems by (intro consider_match_ok) simp_all
    then show ?thesis using False Cons.IH by simp
  qed
qed

lemma collect_sections_ok:
  "kept_ok maxLen intro st \<Longrightarrow> kept_ok maxLen intro (collect_sections content intro rs st)"
proof (induction rs arbitrary: st)
  case Nil
  then show ?case by simp
next
  case (Cons r rs)
  show ?case
  proof (cases "snd st \<le> 0")
    case True
    with Cons.prems show ?thesis by simp
  next
    case False
    then show ?thesis using Cons.prems Cons.IH collect_matches_ok by simp
  qed
qed

lemma readme_kept:
  assumes "content \<noteq> []" and "maxLen < len content"
  shows "\<exists>kept r. smartTruncateReadme content maxLen = join readme_sep (slice content 0 500 # kept)
           \<and> list_all (\<lambda>t. 100 < len t) kept
           \<and> len (slice content 0 500) + sum_list (map len kept) + r = maxLen
           \<and> (len (slice content 0 500) \<le> maxLen \<longrightarrow> 0 \<le> r)"
proof -
  let ?intro = "slice content 0 500"
  let ?st = "collect_sections content ?intro prioritySections ([?intro], maxLen - len ?intro)"
  have "kept_ok maxLen ?intro ([?intro], maxLen - len ?intro)"
    by (simp add: kept_ok_def)
  then have "kept_ok maxLen ?intro ?st" by (rule collect_sections_ok)
  moreover have "smartTruncateReadme content maxLen = join readme_sep (fst ?st)"
    using assms by (simp add: smartTruncateReadme_def Let_def)
  ultimately show ?thesis
    unfolding kept_ok_def by (metis prod.collapse)
qed

lemma len_join_Cons:
  "len (join sep (x # xs)) = len x + sum_list (map len xs) + len sep * len xs"
  by (induction xs arbitrary: x) (simp_all add: len_def algebra_simps)

lemma kept_count:
  "list_all (\<lambda>t. 100 < len t) kept \<Longrightarrow> 101 * len kept \<le> sum_list (map len kept)"
  by (induction kept) (simp_all add: len_def)

lemma readme_bound:
  assumes "500 \<le> maxLen"
  shows "len (smartTruncateReadme content maxLen) \<le> maxLen + 7 * ((maxLen - 500) div 101)"
proof (cases "content = [] \<or> len content \<le> maxLen")
  case True
  have "0 \<le> (maxLen - 500) div 101" using assms by simp
  moreover have "len (smartTruncateReadme content maxLen) \<le> maxLen"
    using True assms by (auto simp: smartTruncateReadme_def len_def)
  ultimately show ?thesis by linarith
next
  case False
  then have ne: "content \<noteq> []" and long: "maxLen < len content" by simp_all
  define intro where "intro = slice content 0 500"
  have li: "len intro = 500"
    unfolding intro_def using long assms by (simp add: len_slice0)
  from readme_kept [OF ne long] obtain kept r where
    out: "smartTruncateReadme content maxLen = join readme_sep (intro # kept)"
    and all: "list_all (\<lambda>t. 100 < len t) kept"
    and sum: "len intro + sum_list (map len kept) + r = maxLen"
    and r: "len intro \<le> maxLen \<longrightarrow> 0 \<le> r"
    unfolding intro_def by blast
  have r0: "0 \<le> r" using r li assms by simp
  have "101 * len kept \<le> sum_list (map len kept)" using all by (rule kept_count)
  then have "101 * len kept \<le> maxLen - 500" using sum li r0 by linarith
  then have cnt: "len kept \<le> (maxLen - 500) div 101" by (simp add: zdiv_mono1 pos_imp_zdiv_nonneg_iff) 
  have "len (smartTruncateReadme content maxLen) = len intro + sum_list (map len kept) + 7 * len kept"
    unfolding out by (simp add: len_join_Cons) (simp add: readme_sep_def len_def)
  then show ?thesis using sum r0 cnt by linarith
qed

section \<open>Output lengths of smartTruncatePython\<close>

lemma len_slice_from_neg: "0 < h \<Longrightarrow> len (slice_from s (- h)) \<le> h"
  by (simp add: slice_from_def slice_bound_def len_def)

lemma len_marker: "len marker = 20"
  by (simp add: marker_def len_def ascii_def)

lemma entry_part_bound:
  assumes "0 \<le> currentLen" and "currentLen \<le> maxLen"
  shows "sum_list (map len (entry_part lines entryStart importEnd currentLen maxLen))
           + len (entry_part lines entryStart importEnd currentLen maxLen)
         \<le> maxLen - currentLen + 22"
proof -
  define entrySection where
    "entrySection = join [NL] (slice_from lines (contextStart entryStart importEnd))"
  define remaining where "remaining = maxLen - currentLen - 50"
  have "len (slice_from entrySection (- remaining)) \<le> remaining" if "0 < remaining"
    using that by (rule len_slice_from_neg)
  then show ?thesis
    using assms
    unfolding entry_part_def Let_def entrySection_def [symmetric] remaining_def [symmetric]
    by (auto simp: len_marker remaining_def) (simp_all add: len_def)
qed

lemma head_tail_part_bound:
  assumes "2 \<le> maxLen - currentLen"
  shows "sum_list (map len (head_tail_part lines importEnd currentLen maxLen))
           + len (head_tail_part lines importEnd currentLen maxLen)
         \<le> maxLen - currentLen + 23"
proof -
  define r where "r = maxLen - currentLen"
  have r: "2 \<le> r" using assms by (simp add: r_def)
  have h: "trunc_half r = r div 2" using r by (simp add: trunc_half_def)
  have t: "trunc_half (- r) = - (r div 2)" using r by (simp add: trunc_half_def)
  have hp: "0 < r div 2" using r by simp
  have a: "len (slice s 0 (r div 2)) \<le> r div 2" for s :: jsstring
    using hp by (intro len_slice0_le) simp
  have b: "len (slice_from s (- (r div 2))) \<le> r div 2" for s :: jsstring
    using hp by (rule len_slice_from_neg)
  have c: "2 * (r div 2) \<le> r" by simp
  show ?thesis
    unfolding head_tail_part_def Let_def r_def [symmetric] h t
    using a [of "join [NL] (slice_from lines (importEnd + 1))"]
      b [of "join [NL] (slice_from lines (importEnd + 1))"] c
    by (auto simp: len_marker) (simp_all add: len_def)
qed

lemma len_join_NL:
  "zs \<noteq> [] \<Longrightarrow> len (join [NL] zs) = sum_list (map len zs) + len zs - 1"
  by (cases zs) (simp_all add: len_join_Cons, simp_all add: len_def)

lemma python_bound:
  assumes "500 \<le> maxLen"
  shows "len (smartTruncatePython content maxLen) \<le> maxLen + 23"
proof (cases "content = [] \<or> len content \<le> maxLen")
  case True
  then show ?thesis using assms by (auto simp: smartTruncatePython_def len_def)
next
  case False
  define lines where "lines = split_nl content"
  define imps where "imps = scan_imports lines 0 ([], 0)"
  define importSection where "importSection = join [NL] (fst imps)"
  define included where "included \<longleftrightarrow> len importSection < maxLen div 2"
  define cur where "cur = (if included then len importSection else 0)"
  define res where "res = (if included then [importSection] else [])"
  define part where "part = (if find_entry lines \<noteq> - 1
       then entry_part lines (find_entry lines) (snd imps) cur maxLen
       else head_tail_part lines (snd imps) cur maxLen)"
  have out: "smartTruncatePython content maxLen = join [NL] (res @ part)"
    using False
    by (simp add: smartTruncatePython_def Let_def lines_def imps_def importSection_def
        included_def cur_def res_def part_def)
  have cur: "0 \<le> cur" "cur \<le> maxLen" "2 \<le> maxLen - cur"
    using assms by (auto simp: cur_def included_def len_def)
  have res: "sum_list (map len res) = cur" "len res \<le> 1"
    by (auto simp: res_def cur_def len_def)
  have p: "sum_list (map len part) + len part \<le> maxLen - cur + 23"
    using entry_part_bound [OF cur(1,2), of lines "find_entry lines" "snd imps"]
      head_tail_part_bound [OF cur(3), of lines "snd imps"]
    by (auto simp: part_def)
  show ?thesis
  proof (cases "res @ part = []")
    case True
    then show ?thesis unfolding out using assms by (simp add: len_def)
  next
    case False
    then have "len (join [NL] (res @ part))
        = sum_list (map len (res @ part)) + len (res @ part) - 1"
      by (rule len_join_NL)
    also have "\<dots> = sum_list (map len res) + sum_list (map len part) + len res + len part - 1"
      by (simp add: len_def)
    also have "\<dots> \<le> maxLen + 23"
      using res p cur by linarith
    finally show ?thesis unfolding out .
  qed
qed

section \<open>Documents of fenced code blocks\<close>

lemma canonicalize_hash: "canonicalize True c = HASH \<longleftrightarrow> c = HASH"
proof -
  have "c - 0x20 = 0x23 \<Longrightarrow> c = 0x43"
    by (metis add.commute diff_add_cancel numeral_plus_numeral semiring_norm(2,3,4,5,6,7,8,9,10))
  then show ?thesis
    by (auto simp: canonicalize_def HASH_def)
qed

lemma class_ok_hash: "class_ok True (Chr HASH) c \<longleftrightarrow> c = HASH"
  using canonicalize_hash [of c] canonicalize_hash [of HASH] by simp

lemma rx_rep_needs_first:
  "0 < mn \<Longrightarrow> s = [] \<or> \<not> p (hd s) \<Longrightarrow> rx_rep g p mn mx s k = None"
  by (cases s) auto

lemma section_rx_needs_hash:
  "s = [] \<or> hd s \<noteq> HASH \<Longrightarrow> rx_exec True (section_rx keywords) n s = None"
  by (simp add: rx_exec_def section_rx_def rx_rep_needs_first class_ok_hash del: class_ok.simps)

lemma section_rx_no_match:
  "HASH \<notin> set s \<Longrightarrow> rx_match_from True (section_rx keywords) n skip s = []"
proof (induction s arbitrary: skip)
  case Nil
  then show ?case by (simp add: section_rx_needs_hash)
next
  case (Cons a s)
  then have "rx_exec True (section_rx keywords) n (a # s) = None"
    by (intro section_rx_needs_hash) auto
  with Cons show ?case by simp
qed

lemma fence_rx_unfold:
  "fence_rx = Seq (Atom (Chr 0x60)) (Seq (Atom (Chr 0x60)) (Seq (Atom (Chr 0x60))
       (Seq (Rep False 0 None AnyChar)
          (Seq (Atom (Chr 0x60)) (Seq (Atom (Chr 0x60)) (Atom (Chr 0x60)))))))"
  by (simp add: fence_rx_def units_def)

lemma fence_rx_needs_fence:
  "s = [] \<or> hd s \<noteq> 0x60 \<Longrightarrow> rx_exec False fence_rx n s = None"
  by (cases s) (auto simp: rx_exec_def fence_rx_unfold canonicalize_def)

lemma fence_open:
  "rx_m False n (Seq (Atom (Chr 0x60)) (Seq (Atom (Chr 0x60)) (Seq (Atom (Chr 0x60)) r)))
     (0x60 # 0x60 # 0x60 # s) k = rx_m False n r s k"
  by (simp add: canonicalize_def)

lemma fence_close:
  "rx_m False n (Seq (Atom (Chr 0x60)) (Seq (Atom (Chr 0x60)) (Atom (Chr 0x60))))
     (0x60 # 0x60 # 0x60 # rest) Some = Some rest"
  by (simp add: canonicalize_def)

lemma fence_close_none:
  "rx_m False n (Seq (Atom (Chr 0x60)) (Seq (Atom (Chr 0x60)) (Atom (Chr 0x60))))
     (0x78 # rest) Some = None"
  by (simp add: canonicalize_def)

lemma lazy_body:
  assumes "\<And>t. rx_m ic n tail (x # t) k = None"
    and "rx_m ic n tail (c # cs) k = Some r"
  shows "rx_m ic n (Seq (Rep False 0 None AnyChar) tail) (replicate w x @ c # cs) k = Some r"
proof -
  have "rx_rep False (class_ok ic AnyChar) 0 None (replicate w x @ c # cs)
          (\<lambda>s'. rx_m ic n tail s' k) = Some r"
    using assms by (induction w) simp_all
  then show ?thesis by (simp only: rx_m.simps)
qed

lemma fence_rx_block:
  "rx_exec False fence_rx n (fence_block w @ rest) = Some rest"
proof -
  have "rx_m False n (Seq (Rep False 0 None AnyChar)
            (Seq (Atom (Chr 0x60)) (Seq (Atom (Chr 0x60)) (Atom (Chr 0x60)))))
          (replicate w 0x78 @ 0x60 # 0x60 # 0x60 # rest) Some = Some rest"
    using fence_close_none fence_close by (rule lazy_body)
  then show ?thesis
    unfolding rx_exec_def fence_rx_unfold fence_block_def
    by (simp only: append_Cons append_Nil fence_open append_assoc)
qed

lemma rx_match_from_skip:
  "rx_match_from ic r n (length xs) (xs @ rest) = rx_match_from ic r n 0 rest"
  by (induction xs) simp_all

lemma fence_match_pad:
  "rx_match_from False fence_rx n 0 (replicate a 0x61 @ rest) = rx_match_from False fence_rx n 0 rest"
  by (induction a) (simp_all add: fence_rx_needs_fence)

lemma fence_match_block:
  "rx_match_from False fence_rx n 0 (fence_block w @ rest)
     = fence_block w # rx_match_from False fence_rx n 0 rest"
proof -
  obtain cs where cs: "fence_block w = 0x60 # cs" and l: "length cs = w + 5"
    by (simp add: fence_block_def)
  have "rx_match_from False fence_rx n 0 (0x60 # cs @ rest)
      = take (Suc (length cs)) (0x60 # cs @ rest)
          # rx_match_from False fence_rx n (length cs) (cs @ rest)"
    using fence_rx_block [of n w rest] by (simp add: cs Let_def)
  then show ?thesis
    by (simp add: cs rx_match_from_skip)
qed

lemma fence_match_blocks:
  "rx_match_from False fence_rx n 0 (concat (replicate k (fence_block w)) @ [0x61])
     = replicate k (fence_block w)"
proof (induction k)
  case 0
  show ?case by (simp add: fence_rx_needs_fence)
next
  case (Suc k)
  then show ?case by (simp add: fence_match_block)
qed

lemma fenced_doc_fences:
  "match_all False fence_rx (fenced_doc w k) = replicate k (fence_block w)"
  by (simp add: match_all_def fenced_doc_def fence_match_pad fence_match_blocks)

lemma fenced_doc_no_hash: "HASH \<notin> set (fenced_doc w k)"
  by (auto simp: fenced_doc_def fence_block_def HASH_def)

lemma fenced_doc_sections:
  "match_all True (section_rx keywords) (fenced_doc w k) = []"
  by (simp add: match_all_def section_rx_no_match fenced_doc_no_hash)

lemma fenced_doc_intro: "slice (fenced_doc w k) 0 500 = replicate 500 0x61"
  by (simp add: slice_def slice_bound_def len_def fenced_doc_def)

lemma len_fenced_doc: "len (fenced_doc w k) = 501 + int k * (int w + 6)"
  by (simp add: len_def fenced_doc_def fence_block_def length_concat sum_list_replicate algebra_simps)

lemma not_includes_fresh:
  "t \<noteq> [] \<Longrightarrow> hd t \<notin> set s \<Longrightarrow> \<not> str_includes s t"
  by (induction s) (auto simp: neq_Nil_conv)

lemma intro_excludes_block: "\<not> str_includes (replicate 500 0x61) (fence_block w)"
  by (rule not_includes_fresh) (simp_all add: fence_block_def)

lemma readme_fenced:
  assumes "maxLen < len (fenced_doc w k)"
  shows "smartTruncateReadme (fenced_doc w k) maxLen =
     join readme_sep (fst (if maxLen - 500 \<le> 0 then ([replicate 500 0x61], maxLen - 500)
        else collect_matches (replicate 500 0x61) (replicate k (fence_block w))
               ([replicate 500 0x61], maxLen - 500)))"
proof -
  have ne: "fenced_doc w k \<noteq> []" by (simp add: fenced_doc_def)
  show ?thesis
    using assms ne
    by (simp add: smartTruncateReadme_def Let_def fenced_doc_intro prioritySections_def
        fenced_doc_sections fenced_doc_fences len_def)
qed

lemma collect_all_blocks:
  assumes "100 < len b" and "\<not> str_includes intro b"
  shows "int j * len b \<le> r \<Longrightarrow>
         collect_matches intro (replicate j b) (ex, r) = (ex @ replicate j b, r - int j * len b)"
proof (induction j arbitrary: ex r)
  case 0
  then show ?case by simp
next
  case (Suc j)
  have "0 \<le> int j * len b" using assms(1) by simp
  moreover have "len b + int j * len b \<le> r" using Suc.prems by (simp add: algebra_simps)
  ultimately have r: "0 < r" "len b \<le> r"
    using assms(1) by linarith+
  have t: "take (nat r) b = b" using r(2) by (simp add: len_def)
  have c: "consider_match intro b (ex, r) = (ex @ [b], r - len b)"
    using consider_match_rule [OF r(1), of intro b ex] assms t by (simp add: len_def)
  have "int j * len b \<le> r - len b" using Suc.prems by (simp add: algebra_simps)
  from Suc.IH [OF this, of "ex @ [b]"] show ?case
    using r(1) c by (simp add: algebra_simps replicate_app_Cons_same)
qed

lemma readme_fenced_all:
  "smartTruncateReadme (fenced_doc 95 k) (500 + 101 * int k)
     = join readme_sep (replicate 500 0x61 # replicate k (fence_block 95))"
proof -
  have lb: "len (fence_block 95) = 101" by (simp add: fence_block_def len_def)
  have long: "500 + 101 * int k < len (fenced_doc 95 k)" by (simp add: len_fenced_doc)
  have c: "collect_matches (replicate 500 0x61) (replicate k (fence_block 95))
        ([replicate 500 0x61], 101 * int k)
      = ([replicate 500 0x61] @ replicate k (fence_block 95), 101 * int k - int k * len (fence_block 95))"
    by (rule collect_all_blocks) (simp_all add: lb intro_excludes_block)
  show ?thesis
    unfolding readme_fenced [OF long] using c by (cases k) simp_all
qed

lemma readme_fenced_len:
  "len (smartTruncateReadme (fenced_doc 95 k) (500 + 101 * int k)) = 500 + 101 * int k + 7 * int k"
  unfolding readme_fenced_all
  by (simp add: len_join_Cons) (simp add: len_def readme_sep_def fence_block_def sum_list_replicate)

section \<open>The keep rule and the length bounds\<close>




text \<open>
  C2, as the code has it. For \<open>maxLen\<close> of 500 or more, the output of
  \<open>smartTruncatePython\<close> is at most 23 code units longer than \<open>maxLen\<close> (the marker
  and three separating newlines). The output of \<open>smartTruncateReadme\<close> exceeds
  \<open>maxLen\<close> by 7 code units, one separator, for every kept fragment; a kept fragment
  has at least 101 code units, so the excess is at most
  \<open>7 * ((maxLen - 500) div 101)\<close>, which grows with \<open>maxLen\<close>.
\<close>

theorem truncation_bounds:
  assumes "500 \<le> maxLen"
  shows "len (smartTruncateReadme content maxLen) \<le> maxLen + 7 * ((maxLen - 500) div 101)
       \<and> len (smartTruncatePython content maxLen) \<le> maxLen + 23"
  using assms readme_bound python_bound by blast

theorem truncation_bounds_witness:
  "(500::int) \<le> 601
   \<and> len (smartTruncateReadme (fenced_doc 95 1) 601) = 601 + 7 * ((601 - 500) div 101)
   \<and> len (smartTruncatePython (fenced_doc 95 1) 601) \<le> 601 + 23"
  using truncation_bounds [of 601 "fenced_doc 95 1"] readme_fenced_len [of 1]
  by simp

text \<open>
  C2 as stated fails for \<open>smartTruncateReadme\<close>: no constant bounds the excess. With
  \<open>k\<close> fenced blocks of 101 code units and \<open>maxLen = 500 + 101 * k\<close> every block is
  kept and the output is \<open>7 * k\<close> code units longer than \<open>maxLen\<close>; with 19 blocks
  and \<open>maxLen = 2419\<close> the excess is 133.
\<close>

theorem readme_slack_unbounded:
  "len (smartTruncateReadme (fenced_doc 95 19) 2419) = 2419 + 133
   \<and> \<not> (\<exists>c. \<forall>content maxLen. 500 \<le> maxLen \<longrightarrow>
            len (smartTruncateReadme content maxLen) \<le> maxLen + c)"
proof
  show "len (smartTruncateReadme (fenced_doc 95 19) 2419) = 2419 + 133"
    using readme_fenced_len [of 19] by simp
  show "\<not> (\<exists>c. \<forall>content maxLen. 500 \<le> maxLen \<longrightarrow>
            len (smartTruncateReadme content maxLen) \<le> maxLen + c)"
  proof
    assume "\<exists>c. \<forall>content maxLen. 500 \<le> maxLen \<longrightarrow>
            len (smartTruncateReadme content maxLen) \<le> maxLen + c"
    then obtain c where c: "\<And>content maxLen. 500 \<le> maxLen \<Longrightarrow>
            len (smartTruncateReadme content maxLen) \<le> maxLen + c"
      by blast
    define k where "k = nat c + 1"
    have "len (smartTruncateReadme (fenced_doc 95 k) (500 + 101 * int k)) \<le> 500 + 101 * int k + c"
      by (rule c) simp
    then have "7 * int k \<le> c" by (simp add: readme_fenced_len)
    then show False by (cases "0 \<le> c") (simp_all add: k_def)
  qed
qed

section \<open>Degenerate inputs\<close>































end
